theory Spec2Isabelle
  imports Main "HOL-Library.Word"
begin

unbundle bit_operations_syntax

section \<open>The digit-product evaluator of persistence.c\<close>

text \<open>
  GMP integers (\<open>mpz_t\<close>) are unbounded and, in this program, never negative: they are
  modelled as \<open>nat\<close>. The C type \<open>unsigned\<close> is modelled as a 32-bit word (its width
  on the ILP32, LP64 and LLP64 data models), so the histogram counters of \<open>mul_digits\<close>
  and the iteration counter of \<open>mpz_persistence\<close> wrap around as they do in the program.
\<close>

type_synonym unsigned = "32 word"

text \<open>
  The \<open>while\<close> loop of \<open>mul_digits\<close>: \<open>mpz_tdiv_q_ui(in, in, 10)\<close> replaces \<open>in\<close> by
  its quotient and returns the remainder \<open>r\<close>. The result \<open>None\<close> is the early
  \<open>return\<close> taken when a remainder is zero (with \<open>out\<close> set to 0); otherwise the loop
  ends with the histogram.
\<close>

function mul_digits_loop :: "nat \<Rightarrow> unsigned list \<Rightarrow> unsigned list option" where
  "mul_digits_loop n hist =
     (if 0 < n then
        (let r = n mod 10; q = n div 10 in
         if r = 0 then None
         else mul_digits_loop q (hist[r := hist ! r + 1]))
      else Some hist)"
  by pat_completeness auto
termination
  by (relation "measure (\<lambda>(n, hist). n)") auto

declare mul_digits_loop.simps [simp del]

text \<open>
  \<open>mul_digits\<close>: the histogram starts as ten zeros; after the loop the counts of 4, 6,
  8 and 9 are folded into the exponents of 2 and 3, and \<open>out\<close> is built from the four
  prime powers, a factor being skipped when its exponent is zero.
\<close>

definition mul_digits :: "nat \<Rightarrow> nat" where
  "mul_digits n =
     (case mul_digits_loop n (replicate 10 0) of
        None \<Rightarrow> 0
      | Some hist0 \<Rightarrow>
          (let hist1 = hist0[2 := hist0 ! 2 + ((hist0 ! 4 * 2) + hist0 ! 6 + (hist0 ! 8 * 3))];
               hist = hist1[3 := hist1 ! 3 + (hist1 ! 6 + (hist1 ! 9 * 2))];
               out0 = 2 ^ unat (hist ! 2);
               out1 = (if hist ! 3 \<noteq> 0 then out0 * 3 ^ unat (hist ! 3) else out0);
               out2 = (if hist ! 5 \<noteq> 0 then out1 * 5 ^ unat (hist ! 5) else out1);
               out3 = (if hist ! 7 \<noteq> 0 then out2 * 7 ^ unat (hist ! 7) else out2)
           in out3))"

text \<open>
  The \<open>for\<close> loop of \<open>mpz_persistence\<close>, with guard \<open>mpz_cmp_ui(in, 10) > 0\<close>.
  Whether it ends is a property of the program, so the loop is a partial function:
  \<open>None\<close> stands for a run that never returns.
\<close>

partial_function (option) mpz_persistence_loop :: "nat \<Rightarrow> unsigned \<Rightarrow> unsigned option" where
  "mpz_persistence_loop v count =
     (if 10 < v then mpz_persistence_loop (mul_digits v) (count + 1) else Some count)"

declare mpz_persistence_loop.simps [code]

definition mpz_persistence :: "nat \<Rightarrow> unsigned option" where
  "mpz_persistence n = mpz_persistence_loop n 0"

section \<open>The prefix table and the search of main\<close>

text \<open>\<open>struct prefix\<close> and the table \<open>prefixes\<close>.\<close>

record prefix =
  p_str :: string
  p_digits :: unsigned
  p_prod :: unsigned

definition NUM_PREFIXES :: nat where
  "NUM_PREFIXES = 6"

definition prefixes :: "prefix list" where
  "prefixes =
     [\<lparr>p_str = ''26'', p_digits = 2, p_prod = 12\<rparr>,
      \<lparr>p_str = ''2'', p_digits = 1, p_prod = 2\<rparr>,
      \<lparr>p_str = ''3'', p_digits = 1, p_prod = 3\<rparr>,
      \<lparr>p_str = ''4'', p_digits = 1, p_prod = 4\<rparr>,
      \<lparr>p_str = ''6'', p_digits = 1, p_prod = 6\<rparr>,
      \<lparr>p_str = [], p_digits = 0, p_prod = 1\<rparr>]"

text \<open>
  One pass through an innermost loop body of \<open>main\<close> is a candidate: the prefix and
  the three counters that are in scope there. \<open>Cand_A prefix num5s num7s num9s\<close> is a
  pass through the first body (digits 5, 7, 9), \<open>Cand_B prefix num7s num8s num9s\<close> one
  through the second (digits 7, 8, 9). The loop counters are bounded by \<open>MAX_DIGITS\<close>
  and are modelled as \<open>nat\<close>; this is exact for \<open>MAX_DIGITS < 2 ^ 32 - 1\<close>.
\<close>

datatype candidate =
  Cand_A prefix nat nat nat
| Cand_B prefix nat nat nat

text \<open>"Compute the first step": the value of \<open>num\<close> handed to \<open>mpz_persistence\<close>.\<close>

fun first_step :: "candidate \<Rightarrow> nat" where
  "first_step (Cand_A prefix num5s num7s num9s) =
     5 ^ num5s * 7 ^ num7s * 9 ^ num9s * unat (p_prod prefix)"
| "first_step (Cand_B prefix num7s num8s num9s) =
     7 ^ num7s * 8 ^ num8s * 9 ^ num9s * unat (p_prod prefix)"

text \<open>The numeral that the \<open>printf\<close> calls of a body write after the persistence.\<close>

fun printed :: "candidate \<Rightarrow> string" where
  "printed (Cand_A prefix num5s num7s num9s) =
     p_str prefix @ replicate num5s CHR ''5'' @ replicate num7s CHR ''7''
       @ replicate num9s CHR ''9''"
| "printed (Cand_B prefix num7s num8s num9s) =
     p_str prefix @ replicate num7s CHR ''7'' @ replicate num8s CHR ''8''
       @ replicate num9s CHR ''9''"

text \<open>
  The two loop nests, each \<open>for\<close> statement being the list of the values its counter
  takes, in order: \<open>num79s < num579s\<close> is \<open>[0..<num579s]\<close> and \<open>num9s <= num79s\<close> is
  \<open>[0..<num79s + 1]\<close>. Running the body over these lists is running the nested
  \<open>for\<close> statements (lemmas \<open>family_A_as_loops\<close>, \<open>family_B_as_loops\<close>,
  \<open>enumerate_prefix_as_loops\<close> and \<open>search_digits_as_loops\<close> below).
\<close>

definition family_A :: "prefix \<Rightarrow> nat \<Rightarrow> candidate list" where
  "family_A prefix digits =
     (let num579s = digits - unat (p_digits prefix) in
      concat (map (\<lambda>num79s.
        let num5s = num579s - num79s in
        map (\<lambda>num9s.
          let num7s = num79s - num9s in
          Cand_A prefix num5s num7s num9s) [0..<num79s + 1]) [0..<num579s]))"

definition family_B :: "prefix \<Rightarrow> nat \<Rightarrow> candidate list" where
  "family_B prefix digits =
     (let num789s = digits - unat (p_digits prefix) in
      concat (map (\<lambda>num89s.
        let num7s = num789s - num89s in
        map (\<lambda>num9s.
          let num8s = num89s - num9s in
          Cand_B prefix num7s num8s num9s) [0..<num89s + 1]) [0..<num789s + 1]))"

text \<open>
  The body of the loop over \<open>p\<close>: a prefix longer than \<open>digits\<close> is skipped
  (\<open>continue\<close>); the first nest runs only when \<open>prefix->prod & 1\<close>.
\<close>

definition enumerate_prefix :: "prefix \<Rightarrow> nat \<Rightarrow> candidate list" where
  "enumerate_prefix prefix digits =
     (if digits < unat (p_digits prefix) then []
      else (if p_prod prefix AND 1 \<noteq> 0 then family_A prefix digits else [])
           @ family_B prefix digits)"

definition candidates :: "nat \<Rightarrow> candidate list" where
  "candidates digits =
     concat (map (\<lambda>p. enumerate_prefix (prefixes ! p) digits) [0..<NUM_PREFIXES])"

text \<open>
  The state that the search updates: the record \<open>max\<close> and the lines written to the
  standard output, each as the persistence and the numeral that follow \<open>"%02u:  %s"\<close>.
  With \<open>USE_OPENMP\<close> the comparison and the update run inside the mutex, after the
  second test of \<open>persistence <= max\<close>; \<open>report\<close> is that critical section, and the
  same function is the plain \<open>if\<close> of the sequential build. The progress counters
  \<open>digits_left\<close> only drive the messages on the standard error and are left out.
\<close>

record state =
  max_rec :: unsigned
  printed_lines :: "(unsigned \<times> string) list"

definition report :: "unsigned \<Rightarrow> string \<Rightarrow> state \<Rightarrow> state" where
  "report persistence text st =
     (if persistence > max_rec st
      then st\<lparr>printed_lines := printed_lines st @ [(persistence, text)],
              max_rec := persistence\<rparr>
      else st)"

text \<open>\<open>unsigned persistence = 1 + mpz_persistence(num)\<close>.\<close>

definition compute_persistence :: "candidate \<Rightarrow> unsigned option" where
  "compute_persistence c =
     (case mpz_persistence (first_step c) of
        None \<Rightarrow> None
      | Some count \<Rightarrow> Some (1 + count))"

definition search_body :: "candidate \<Rightarrow> state \<Rightarrow> state option" where
  "search_body c st =
     (case compute_persistence c of
        None \<Rightarrow> None
      | Some persistence \<Rightarrow> Some (report persistence (printed c) st))"

fun for_each :: "('a \<Rightarrow> 's \<Rightarrow> 's option) \<Rightarrow> 'a list \<Rightarrow> 's \<Rightarrow> 's option" where
  "for_each body [] st = Some st"
| "for_each body (x # xs) st =
     (case body x st of None \<Rightarrow> None | Some st' \<Rightarrow> for_each body xs st')"

definition search_digits :: "nat \<Rightarrow> state \<Rightarrow> state option" where
  "search_digits digits st = for_each search_body (candidates digits) st"

definition initial_state :: state where
  "initial_state = \<lparr>max_rec = 2, printed_lines = []\<rparr>"

text \<open>
  The outer loop \<open>for (unsigned digits = 2; digits <= MAX_DIGITS; digits++)\<close>, with the
  counter as \<open>nat\<close>. This is the program for \<open>MAX_DIGITS < 2 ^ 32 - 1\<close> only: from
  \<open>2 ^ 32 - 1\<close> on the 32-bit counter wraps before the test can fail and the loop of
  the program never ends, so what is claimed of the program through \<open>main\<close> carries
  that bound.
\<close>

definition main :: "nat \<Rightarrow> state option" where
  "main MAX_DIGITS = for_each search_digits [2..<MAX_DIGITS + 1] initial_state"

section \<open>Reference notions: decimal digits, digit product, persistence\<close>

text \<open>
  The decimal digits of a number, least significant first. \<open>digits_of\<close> gives no digit
  to 0; \<open>decimal_digits\<close> is the usual numeral, in which 0 is written with the single
  digit 0.
\<close>

function digits_of :: "nat \<Rightarrow> nat list" where
  "digits_of n = (if 0 < n then (n mod 10) # digits_of (n div 10) else [])"
  by pat_completeness auto
termination
  by (relation "measure (\<lambda>n. n)") auto

declare digits_of.simps [simp del]

definition decimal_digits :: "nat \<Rightarrow> nat list" where
  "decimal_digits n = (if 0 < n then digits_of n else [0])"

text \<open>The digit product of \<open>n\<close>: the product of its base-10 digits.\<close>

definition digit_product :: "nat \<Rightarrow> nat" where
  "digit_product n = prod_list (decimal_digits n)"

text \<open>
  The histogram \<open>h[d]\<close> of the digits of \<open>n\<close>, the adjusted counts
  \<open>h[2] + 2 h[4] + h[6] + 3 h[8]\<close> and \<open>h[3] + h[6] + 2 h[9]\<close>, and the product
  \<open>2^h2' 3^h3' 5^h5 7^h7\<close> recomposed from them.
\<close>

definition hist_exp2 :: "nat list \<Rightarrow> nat" where
  "hist_exp2 ds = count_list ds 2 + 2 * count_list ds 4 + count_list ds 6 + 3 * count_list ds 8"

definition hist_exp3 :: "nat list \<Rightarrow> nat" where
  "hist_exp3 ds = count_list ds 3 + count_list ds 6 + 2 * count_list ds 9"

definition hist_factorization :: "nat \<Rightarrow> nat" where
  "hist_factorization n =
     2 ^ hist_exp2 (decimal_digits n) * 3 ^ hist_exp3 (decimal_digits n)
       * 5 ^ count_list (decimal_digits n) 5 * 7 ^ count_list (decimal_digits n) 7"

text \<open>
  The four exponents fit the 32-bit counters in which \<open>mul_digits\<close> accumulates them.
\<close>

definition no_wrap :: "nat \<Rightarrow> bool" where
  "no_wrap n \<longleftrightarrow>
     hist_exp2 (decimal_digits n) < 2 ^ 32 \<and> hist_exp3 (decimal_digits n) < 2 ^ 32
     \<and> count_list (decimal_digits n) 5 < 2 ^ 32 \<and> count_list (decimal_digits n) 7 < 2 ^ 32"

text \<open>
  The multiplicative digital persistence of \<open>n\<close>: the number of iterations of the digit
  product needed to bring \<open>n\<close> below 10. Its termination is proved further down, once
  the digit product is known to decrease.
\<close>

function persistence :: "nat \<Rightarrow> nat" where
  "persistence n = (if 10 \<le> n then 1 + persistence (digit_product n) else 0)"
  by pat_completeness auto

text \<open>The number written with \<open>k\<close> copies of the digit \<open>d\<close>.\<close>

primrec repdigit :: "nat \<Rightarrow> nat \<Rightarrow> nat" where
  "repdigit d 0 = 0"
| "repdigit d (Suc k) = 10 * repdigit d k + d"

text \<open>Reading a text of decimal digits: the value of a digit, their product, the number.\<close>

definition digit_value :: "char \<Rightarrow> nat" where
  "digit_value c = of_char c - of_char CHR ''0''"

definition text_product :: "string \<Rightarrow> nat" where
  "text_product s = prod_list (map digit_value s)"

definition decimal_value :: "string \<Rightarrow> nat" where
  "decimal_value s = foldl (\<lambda>v c. 10 * v + digit_value c) 0 s"

text \<open>A text all of whose characters are digits from 1 to 9.\<close>

definition nonzero_digits :: "string \<Rightarrow> bool" where
  "nonzero_digits s = list_all (\<lambda>c. 0 < digit_value c \<and> digit_value c < 10) s"

text \<open>One step of the histogram loop, as a function of the remainder.\<close>

definition bump :: "nat \<Rightarrow> unsigned list \<Rightarrow> unsigned list" where
  "bump r hist = hist[r := hist ! r + 1]"

text \<open>
  What the record update maintains: the printed persistences increase strictly, each lies
  above 2 and at most at \<open>max\<close>, and \<open>max\<close> is at least 2.
\<close>

definition tracker_inv :: "state \<Rightarrow> bool" where
  "tracker_inv st \<longleftrightarrow>
     sorted_wrt (<) (map fst (printed_lines st))
     \<and> list_all (\<lambda>l. 2 < fst l \<and> fst l \<le> max_rec st) (printed_lines st)
     \<and> 2 \<le> max_rec st"

section \<open>The histogram loop and the decimal digits\<close>

lemma digits_of_0: "digits_of 0 = []"
  by (simp add: digits_of.simps)

lemma digits_of_pos: "0 < n \<Longrightarrow> digits_of n = (n mod 10) # digits_of (n div 10)"
  by (subst digits_of.simps) simp

lemma mul_digits_loop_0: "mul_digits_loop 0 hist = Some hist"
  by (simp add: mul_digits_loop.simps)

lemma mul_digits_loop_pos:
  "0 < n \<Longrightarrow> mul_digits_loop n hist =
     (if n mod 10 = 0 then None else mul_digits_loop (n div 10) (bump (n mod 10) hist))"
  by (subst mul_digits_loop.simps) (simp add: Let_def bump_def)

lemma length_bump: "length (bump r hist) = length hist"
  by (simp add: bump_def)

lemma nth_bump:
  "i < length hist \<Longrightarrow> bump d hist ! i = (if d = i then hist ! i + 1 else hist ! i)"
  by (simp add: bump_def nth_list_update)

lemma digits_of_lt10: "d \<in> set (digits_of n) \<Longrightarrow> d < 10"
proof (induction n rule: digits_of.induct)
  case (1 n)
  show ?case
  proof (cases "0 < n")
    case True
    with 1 show ?thesis by (auto simp: digits_of_pos)
  next
    case False
    with 1 show ?thesis by (simp add: digits_of_0)
  qed
qed

text \<open>The loop stops early exactly when a digit is zero, and otherwise counts every digit.\<close>

lemma mul_digits_loop_digits:
  "mul_digits_loop n hist =
     (if 0 \<in> set (digits_of n) then None else Some (fold bump (digits_of n) hist))"
proof (induction n arbitrary: hist rule: less_induct)
  case (less n)
  show ?case
  proof (cases "0 < n")
    case False
    then show ?thesis
      by (simp add: mul_digits_loop_0 digits_of_0)
  next
    case True
    then have "n div 10 < n" by simp
    from less.IH [OF this] True show ?thesis
      by (simp add: mul_digits_loop_pos digits_of_pos)
  qed
qed

lemma fold_bump_length: "length (fold bump ds hist) = length hist"
  by (induction ds arbitrary: hist) (simp_all add: length_bump)

lemma fold_bump_nth:
  "i < length hist \<Longrightarrow> fold bump ds hist ! i = hist ! i + of_nat (count_list ds i)"
proof (induction ds arbitrary: hist)
  case Nil
  then show ?case by simp
next
  case (Cons d ds)
  have "fold bump ds (bump d hist) ! i = bump d hist ! i + of_nat (count_list ds i)"
    using Cons.prems by (intro Cons.IH) (simp add: length_bump)
  with Cons.prems show ?case by (simp add: nth_bump)
qed

text \<open>The product of nonzero digits, recomposed from their histogram.\<close>

lemma prod_list_hist:
  "\<forall>d \<in> set ds. 0 < d \<and> d < 10 \<Longrightarrow>
   prod_list ds = 2 ^ hist_exp2 ds * 3 ^ hist_exp3 ds * 5 ^ count_list ds 5 * 7 ^ count_list ds 7"
proof (induction ds)
  case Nil
  then show ?case by (simp add: hist_exp2_def hist_exp3_def)
next
  case (Cons d ds)
  then have IH: "prod_list ds =
      2 ^ hist_exp2 ds * 3 ^ hist_exp3 ds * 5 ^ count_list ds 5 * 7 ^ count_list ds 7"
    by simp
  from Cons.prems
  have "d = 1 \<or> d = 2 \<or> d = 3 \<or> d = 4 \<or> d = 5 \<or> d = 6 \<or> d = 7 \<or> d = 8 \<or> d = 9"
    by (simp; arith)
  then show ?case
    by (elim disjE) (simp_all add: IH hist_exp2_def hist_exp3_def power_add power_mult)
qed

lemma pow_guard:
  "(if w \<noteq> 0 then out * b ^ unat w else out) = out * b ^ unat w"
  for w :: unsigned and out b :: nat
  by simp

text \<open>
  What \<open>mul_digits\<close> returns on every input: the four exponents are the recomposed
  counts reduced modulo \<open>2 ^ 32\<close>, the width of the histogram's counters.
\<close>

lemma mul_digits_eq:
  "mul_digits n =
     (if 0 \<in> set (digits_of n) then 0
      else 2 ^ (hist_exp2 (digits_of n) mod 2 ^ 32) * 3 ^ (hist_exp3 (digits_of n) mod 2 ^ 32)
           * 5 ^ (count_list (digits_of n) 5 mod 2 ^ 32)
           * 7 ^ (count_list (digits_of n) 7 mod 2 ^ 32))"
proof (cases "0 \<in> set (digits_of n)")
  case True
  then show ?thesis
    by (simp add: mul_digits_def mul_digits_loop_digits)
next
  case False
  define ds where "ds = digits_of n"
  define hist0 where "hist0 = fold bump ds (replicate 10 0)"
  have len: "length hist0 = 10"
    by (simp add: hist0_def fold_bump_length)
  have nth: "hist0 ! i = of_nat (count_list ds i)" if "i < 10" for i
    using that by (simp add: hist0_def fold_bump_nth)
  define hist1 where
    "hist1 = hist0[2 := hist0 ! 2 + ((hist0 ! 4 * 2) + hist0 ! 6 + (hist0 ! 8 * 3))]"
  define hist where "hist = hist1[3 := hist1 ! 3 + (hist1 ! 6 + (hist1 ! 9 * 2))]"
  have h2: "hist ! 2 = of_nat (hist_exp2 ds)"
    by (simp add: hist_def hist1_def len nth hist_exp2_def)
  have h3: "hist ! 3 = of_nat (hist_exp3 ds)"
    by (simp add: hist_def hist1_def len nth hist_exp3_def)
  have h5: "hist ! 5 = of_nat (count_list ds 5)"
    by (simp add: hist_def hist1_def len nth)
  have h7: "hist ! 7 = of_nat (count_list ds 7)"
    by (simp add: hist_def hist1_def len nth)
  have "mul_digits n =
      2 ^ unat (hist ! 2) * 3 ^ unat (hist ! 3) * 5 ^ unat (hist ! 5) * 7 ^ unat (hist ! 7)"
    using False unfolding mul_digits_def mul_digits_loop_digits
    by (simp only: if_False option.case Let_def pow_guard
          flip: ds_def hist0_def hist1_def hist_def)
  then show ?thesis
    using False by (simp add: h2 h3 h5 h7 unat_of_nat flip: ds_def)
qed

lemma count4_le_length:
  "a \<noteq> b \<Longrightarrow> a \<noteq> c \<Longrightarrow> a \<noteq> d \<Longrightarrow> b \<noteq> c \<Longrightarrow> b \<noteq> d \<Longrightarrow> c \<noteq> d \<Longrightarrow>
   count_list xs a + count_list xs b + count_list xs c + count_list xs d \<le> length xs"
  by (induction xs) auto

lemma hist_exp2_le: "hist_exp2 ds \<le> 3 * length ds"
proof -
  have "count_list ds 2 + count_list ds 4 + count_list ds 6 + count_list ds 8 \<le> length ds"
    by (rule count4_le_length) simp_all
  then show ?thesis by (simp add: hist_exp2_def)
qed

lemma hist_exp3_le: "hist_exp3 ds \<le> 3 * length ds"
proof -
  have "count_list ds 3 + count_list ds 6 + count_list ds 9 + count_list ds 0 \<le> length ds"
    by (rule count4_le_length) simp_all
  then show ?thesis by (simp add: hist_exp3_def)
qed

lemma digits_of_pos_digits:
  "0 \<notin> set (digits_of n) \<Longrightarrow> \<forall>d \<in> set (digits_of n). 0 < d \<and> d < 10"
  using digits_of_lt10 [of _ n] by (metis gr0I)

text \<open>While no exponent wraps, \<open>mul_digits\<close> is the product of the digits.\<close>

lemma mul_digits_exact:
  assumes "hist_exp2 (digits_of n) < 2 ^ 32" and "hist_exp3 (digits_of n) < 2 ^ 32"
    and "count_list (digits_of n) 5 < 2 ^ 32" and "count_list (digits_of n) 7 < 2 ^ 32"
  shows "mul_digits n = (if 0 \<in> set (digits_of n) then 0 else prod_list (digits_of n))"
proof (cases "0 \<in> set (digits_of n)")
  case True
  then show ?thesis by (simp add: mul_digits_eq)
next
  case False
  let ?ds = "digits_of n"
  have "mul_digits n =
      2 ^ hist_exp2 ?ds * 3 ^ hist_exp3 ?ds * 5 ^ count_list ?ds 5 * 7 ^ count_list ?ds 7"
    using False assms by (simp add: mul_digits_eq)
  also have "\<dots> = prod_list ?ds"
    using digits_of_pos_digits [OF False] by (rule prod_list_hist [symmetric])
  finally show ?thesis using False by simp
qed

lemma short_no_wrap:
  assumes "3 * length ds < 2 ^ 32"
  shows "hist_exp2 ds < 2 ^ 32" and "hist_exp3 ds < 2 ^ 32"
    and "count_list ds 5 < 2 ^ 32" and "count_list ds 7 < 2 ^ 32"
proof -
  show "hist_exp2 ds < 2 ^ 32" "hist_exp3 ds < 2 ^ 32"
    using assms hist_exp2_le [of ds] hist_exp3_le [of ds] by linarith+
  show "count_list ds 5 < 2 ^ 32" "count_list ds 7 < 2 ^ 32"
    using assms count_le_length [of ds 5] count_le_length [of ds 7] by linarith+
qed

text \<open>On every input, wrapped or not, \<open>mul_digits\<close> is at most the product of the digits.\<close>

lemma mul_digits_le: "mul_digits n \<le> prod_list (digits_of n)"
proof (cases "0 \<in> set (digits_of n)")
  case True
  then show ?thesis by (simp add: mul_digits_eq)
next
  case False
  let ?ds = "digits_of n"
  have "(2::nat) ^ (hist_exp2 ?ds mod 2 ^ 32) \<le> 2 ^ hist_exp2 ?ds"
    by (rule power_increasing) simp_all
  moreover have "(3::nat) ^ (hist_exp3 ?ds mod 2 ^ 32) \<le> 3 ^ hist_exp3 ?ds"
    by (rule power_increasing) simp_all
  moreover have "(5::nat) ^ (count_list ?ds 5 mod 2 ^ 32) \<le> 5 ^ count_list ?ds 5"
    by (rule power_increasing) simp_all
  moreover have "(7::nat) ^ (count_list ?ds 7 mod 2 ^ 32) \<le> 7 ^ count_list ?ds 7"
    by (rule power_increasing) simp_all
  ultimately have "mul_digits n \<le>
      2 ^ hist_exp2 ?ds * 3 ^ hist_exp3 ?ds * 5 ^ count_list ?ds 5 * 7 ^ count_list ?ds 7"
    using False unfolding mul_digits_eq
    by (simp only: if_False) (intro mult_le_mono)
  also have "\<dots> = prod_list ?ds"
    using digits_of_pos_digits [OF False] by (rule prod_list_hist [symmetric])
  finally show ?thesis .
qed

lemma prod_digits_le: "0 < n \<Longrightarrow> prod_list (digits_of n) \<le> n"
proof (induction n rule: less_induct)
  case (less n)
  show ?case
  proof (cases "n < 10")
    case True
    with less.prems show ?thesis
      by (simp add: digits_of_pos digits_of_0)
  next
    case False
    then have q: "0 < n div 10" "n div 10 < n" by simp_all
    have "prod_list (digits_of n) = (n mod 10) * prod_list (digits_of (n div 10))"
      using less.prems by (simp add: digits_of_pos)
    also have "\<dots> \<le> (n mod 10) * (n div 10)"
      using less.IH [OF q(2) q(1)] by simp
    also have "\<dots> \<le> 9 * (n div 10)"
      by (rule mult_le_mono1) simp
    also have "\<dots> \<le> n"
      by arith
    finally show ?thesis .
  qed
qed

lemma prod_digits_less: "10 \<le> n \<Longrightarrow> prod_list (digits_of n) < n"
proof -
  assume n: "10 \<le> n"
  then have q: "0 < n div 10" by simp
  have "prod_list (digits_of n) = (n mod 10) * prod_list (digits_of (n div 10))"
    using n by (simp add: digits_of_pos)
  also have "\<dots> \<le> (n mod 10) * (n div 10)"
    using prod_digits_le [OF q] by simp
  also have "\<dots> \<le> 9 * (n div 10)"
    by (rule mult_le_mono1) simp
  also have "\<dots> < n"
    using q by arith
  finally show ?thesis .
qed

lemma mul_digits_less: "10 \<le> v \<Longrightarrow> mul_digits v < v"
  using mul_digits_le [of v] prod_digits_less [of v] by simp

lemma digit_product_less: "10 \<le> n \<Longrightarrow> digit_product n < n"
  using prod_digits_less [of n] by (simp add: digit_product_def decimal_digits_def)

termination persistence
  by (relation "measure (\<lambda>n. n)") (simp_all add: digit_product_less)

declare persistence.simps [simp del]

section \<open>The persistence loop\<close>

lemma mpz_persistence_loop_total: "\<exists>r. mpz_persistence_loop v count = Some r"
proof (induction v arbitrary: count rule: less_induct)
  case (less v)
  show ?case
  proof (cases "10 < v")
    case True
    then have "mul_digits v < v" by (simp add: mul_digits_less)
    from less.IH [OF this, of "count + 1"] True show ?thesis
      by (subst mpz_persistence_loop.simps) simp
  next
    case False
    then show ?thesis
      by (subst mpz_persistence_loop.simps) simp
  qed
qed

lemma mpz_persistence_small: "n \<le> 10 \<Longrightarrow> mpz_persistence n = Some 0"
  unfolding mpz_persistence_def by (subst mpz_persistence_loop.simps) simp

section \<open>Digit product and recomposed histogram\<close>

lemma decimal_digits_pos: "0 < n \<Longrightarrow> decimal_digits n = digits_of n"
  by (simp add: decimal_digits_def)

lemma digit_product_pos: "0 < n \<Longrightarrow> digit_product n = prod_list (digits_of n)"
  by (simp add: digit_product_def decimal_digits_def)

lemma prod_list_zero: "(0::nat) \<in> set ds \<Longrightarrow> prod_list ds = 0"
  by (induction ds) auto

lemma no_wrap_pos:
  "0 < n \<Longrightarrow> no_wrap n \<longleftrightarrow>
     hist_exp2 (digits_of n) < 2 ^ 32 \<and> hist_exp3 (digits_of n) < 2 ^ 32
     \<and> count_list (digits_of n) 5 < 2 ^ 32 \<and> count_list (digits_of n) 7 < 2 ^ 32"
  by (simp add: no_wrap_def decimal_digits_pos)

lemma short_numbers_no_wrap: "3 * length (decimal_digits n) < 2 ^ 32 \<Longrightarrow> no_wrap n"
  unfolding no_wrap_def by (intro conjI short_no_wrap)

lemma mul_digits_zero_digit:
  assumes "0 < n" and "0 \<in> set (decimal_digits n)"
  shows "mul_digits n = 0" and "digit_product n = 0"
  using assms by (simp_all add: mul_digits_eq decimal_digits_pos digit_product_def prod_list_zero)

lemma mul_digits_is_digit_product:
  assumes "0 < n" and "no_wrap n"
  shows "mul_digits n = digit_product n"
proof -
  have "mul_digits n = (if 0 \<in> set (digits_of n) then 0 else prod_list (digits_of n))"
    using assms by (intro mul_digits_exact) (simp_all add: no_wrap_pos)
  then show ?thesis
    using assms(1) by (simp add: digit_product_pos prod_list_zero)
qed

lemma digit_product_factorization:
  assumes "0 < n" and "0 \<notin> set (decimal_digits n)"
  shows "digit_product n = hist_factorization n"
proof -
  have "0 \<notin> set (digits_of n)"
    using assms by (simp add: decimal_digits_pos)
  then have "prod_list (digits_of n) =
      2 ^ hist_exp2 (digits_of n) * 3 ^ hist_exp3 (digits_of n)
        * 5 ^ count_list (digits_of n) 5 * 7 ^ count_list (digits_of n) 7"
    by (intro prod_list_hist digits_of_pos_digits)
  then show ?thesis
    using assms(1) by (simp add: digit_product_pos hist_factorization_def decimal_digits_pos)
qed

text \<open>Repdigits: the inputs on which a counter of the histogram wraps.\<close>

lemma repdigit_pos: "0 < d \<Longrightarrow> 0 < k \<Longrightarrow> 0 < repdigit d k"
  by (cases k) simp_all

lemma digits_of_repdigit: "0 < d \<Longrightarrow> d < 10 \<Longrightarrow> digits_of (repdigit d k) = replicate k d"
proof (induction k)
  case 0
  then show ?case by (simp add: digits_of_0)
next
  case (Suc k)
  have "0 < repdigit d (Suc k)" using Suc.prems by simp
  then have "digits_of (repdigit d (Suc k)) =
      (repdigit d (Suc k) mod 10) # digits_of (repdigit d (Suc k) div 10)"
    by (rule digits_of_pos)
  also have "repdigit d (Suc k) mod 10 = d" using Suc.prems by simp
  also have "repdigit d (Suc k) div 10 = repdigit d k" using Suc.prems by simp
  finally show ?case using Suc by simp
qed

lemma count_list_replicate: "count_list (replicate k d) x = (if x = d then k else 0)"
  by (induction k) auto

lemma mul_digits_repdigit8: "mul_digits (repdigit 8 k) = 2 ^ (3 * k mod 2 ^ 32)"
  by (simp add: mul_digits_eq digits_of_repdigit hist_exp2_def hist_exp3_def count_list_replicate)

lemma hist_factorization_repdigit8: "0 < k \<Longrightarrow> hist_factorization (repdigit 8 k) = 2 ^ (3 * k)"
  by (simp add: hist_factorization_def decimal_digits_pos repdigit_pos digits_of_repdigit
        hist_exp2_def hist_exp3_def count_list_replicate)

lemma repdigit8_wraps:
  assumes "0 < k" and "2 ^ 32 \<le> 3 * k"
  shows "mul_digits (repdigit 8 k) \<noteq> hist_factorization (repdigit 8 k)"
proof -
  have "3 * k mod 2 ^ 32 < (2 ^ 32 :: nat)" by simp
  with assms(2) have "3 * k mod 2 ^ 32 \<noteq> 3 * k" by linarith
  then have "(2::nat) ^ (3 * k mod 2 ^ 32) \<noteq> 2 ^ (3 * k)"
    by simp
  then show ?thesis
    by (simp add: mul_digits_repdigit8 hist_factorization_repdigit8 [OF assms(1)])
qed

lemma repdigit8_result:
  assumes "3 * k mod 2 ^ 32 = 2"
  shows "mul_digits (repdigit 8 k) = 4"
  using assms by (simp add: mul_digits_repdigit8)

lemma repdigit8_shape:
  assumes "0 < k"
  shows "1 \<le> repdigit 8 k" and "0 \<notin> set (decimal_digits (repdigit 8 k))"
  using assms repdigit_pos [of 8 k]
  by (simp_all add: decimal_digits_pos digits_of_repdigit)

lemma repdigit8_wraps_product:
  assumes "0 < k" and "2 ^ 32 \<le> 3 * k"
  shows "mul_digits (repdigit 8 k) \<noteq> digit_product (repdigit 8 k)"
proof -
  have "0 < repdigit 8 k" using assms(1) by (simp add: repdigit_pos)
  moreover have "0 \<notin> set (decimal_digits (repdigit 8 k))"
    using assms(1) by (rule repdigit8_shape)
  ultimately have "digit_product (repdigit 8 k) = hist_factorization (repdigit 8 k)"
    by (rule digit_product_factorization)
  with repdigit8_wraps [OF assms] show ?thesis by simp
qed

text \<open>
  Above 10 the count returned by \<open>mpz_persistence\<close> is one more than the count of
  the digit product (in 32-bit arithmetic).
\<close>

lemma mpz_persistence_loop_shift:
  "mpz_persistence_loop v count = map_option (\<lambda>r. count + r) (mpz_persistence_loop v 0)"
proof (induction v arbitrary: count rule: less_induct)
  case (less v)
  show ?case
  proof (cases "10 < v")
    case True
    then have d: "mul_digits v < v" by (simp add: mul_digits_less)
    have "mpz_persistence_loop v count = mpz_persistence_loop (mul_digits v) (count + 1)"
      using True by (subst mpz_persistence_loop.simps) simp
    also have "\<dots> = map_option (\<lambda>r. count + 1 + r) (mpz_persistence_loop (mul_digits v) 0)"
      by (rule less.IH [OF d])
    finally have a: "mpz_persistence_loop v count =
        map_option (\<lambda>r. count + 1 + r) (mpz_persistence_loop (mul_digits v) 0)" .
    have "mpz_persistence_loop v 0 = mpz_persistence_loop (mul_digits v) (0 + 1)"
      using True by (subst mpz_persistence_loop.simps) simp
    also have "\<dots> = map_option (\<lambda>r. 0 + 1 + r) (mpz_persistence_loop (mul_digits v) 0)"
      by (rule less.IH [OF d])
    finally show ?thesis
      by (simp add: a option.map_comp comp_def add.assoc)
  next
    case False
    then show ?thesis
      by (simp add: mpz_persistence_loop.simps [of v])
  qed
qed

lemma mpz_persistence_step:
  "10 < n \<Longrightarrow> mpz_persistence n = map_option (\<lambda>r. 1 + r) (mpz_persistence (mul_digits n))"
  unfolding mpz_persistence_def
  by (subst mpz_persistence_loop.simps, subst mpz_persistence_loop_shift) simp

section \<open>The enumeration loops\<close>

lemma even_unat: "even (unat w) = even w" for w :: unsigned
  using bit_unsigned_iff [of w 0, where ?'a = nat] by (simp add: bit_0)

lemma odd_prod_iff: "(w AND 1 \<noteq> 0) = odd (unat w)" for w :: unsigned
  by (simp add: and_one_eq even_iff_mod_2_eq_zero [symmetric] even_unat)

lemma first_step_family_A:
  "map first_step (family_A prefix D) =
     [unat (p_prod prefix) * 5 ^ (D - unat (p_digits prefix) - q) * 7 ^ (q - d) * 9 ^ d.
        q \<leftarrow> [0..<D - unat (p_digits prefix)], d \<leftarrow> [0..<q + 1]]"
  by (simp add: family_A_def Let_def map_concat comp_def mult_ac)

lemma first_step_family_B:
  "map first_step (family_B prefix D) =
     [unat (p_prod prefix) * 7 ^ (D - unat (p_digits prefix) - m) * 8 ^ (m - d) * 9 ^ d.
        m \<leftarrow> [0..<D - unat (p_digits prefix) + 1], d \<leftarrow> [0..<m + 1]]"
  by (simp add: family_B_def Let_def map_concat comp_def mult_ac)

lemma in_nested_loops:
  "x \<in> set (concat (map (\<lambda>q. map (f q) (ys q)) xs)) \<longleftrightarrow>
     (\<exists>q \<in> set xs. \<exists>d \<in> set (ys q). x = f q d)"
  by auto

lemma set_family_A_values:
  "set [P * 5 ^ (R - q) * 7 ^ (q - d) * 9 ^ d. q \<leftarrow> [0..<R], d \<leftarrow> [0..<q + 1]] =
     {P * 5 ^ s * 7 ^ b * 9 ^ d | s b d. 1 \<le> s \<and> s + b + d = R}" (is "?L = ?S") for P R :: nat
proof (intro set_eqI iffI)
  fix x assume "x \<in> ?L"
  then obtain q d where "q \<in> set [0..<R]" "d \<in> set [0..<q + 1]"
    and x: "x = P * 5 ^ (R - q) * 7 ^ (q - d) * 9 ^ d"
    unfolding in_nested_loops by blast
  then have qd: "q < R" "d \<le> q" by auto
  from qd have "1 \<le> R - q" "(R - q) + (q - d) + d = R" by simp_all
  with x show "x \<in> ?S" by blast
next
  fix x assume "x \<in> ?S"
  then obtain s b d where sbd: "1 \<le> s" "s + b + d = R" and x: "x = P * 5 ^ s * 7 ^ b * 9 ^ d"
    by blast
  from sbd have "b + d < R" "d \<le> b + d" "R - (b + d) = s" "(b + d) - d = b" by simp_all
  with x have "b + d \<in> set [0..<R]" "d \<in> set [0..<(b + d) + 1]"
    "x = P * 5 ^ (R - (b + d)) * 7 ^ ((b + d) - d) * 9 ^ d" by auto
  then show "x \<in> ?L" unfolding in_nested_loops by blast
qed

lemma set_family_B_values:
  "set [P * 7 ^ (R - m) * 8 ^ (m - d) * 9 ^ d. m \<leftarrow> [0..<R + 1], d \<leftarrow> [0..<m + 1]] =
     {P * 7 ^ b * 8 ^ c * 9 ^ d | b c d. b + c + d = R}" (is "?L = ?S") for P R :: nat
proof (intro set_eqI iffI)
  fix x assume "x \<in> ?L"
  then obtain m d where "m \<in> set [0..<R + 1]" "d \<in> set [0..<m + 1]"
    and x: "x = P * 7 ^ (R - m) * 8 ^ (m - d) * 9 ^ d"
    unfolding in_nested_loops by blast
  then have md: "m \<le> R" "d \<le> m" by auto
  from md have "(R - m) + (m - d) + d = R" by simp
  with x show "x \<in> ?S" by blast
next
  fix x assume "x \<in> ?S"
  then obtain b c d where bcd: "b + c + d = R" and x: "x = P * 7 ^ b * 8 ^ c * 9 ^ d"
    by blast
  from bcd have "c + d \<le> R" "d \<le> c + d" "R - (c + d) = b" "(c + d) - d = c" by simp_all
  with x have "c + d \<in> set [0..<R + 1]" "d \<in> set [0..<(c + d) + 1]"
    "x = P * 7 ^ (R - (c + d)) * 8 ^ ((c + d) - d) * 9 ^ d" by auto
  then show "x \<in> ?L" unfolding in_nested_loops by blast
qed

section \<open>Candidates, the record update and the run of main\<close>

lemma prefixes_length_str: "prefix \<in> set prefixes \<Longrightarrow> length (p_str prefix) = unat (p_digits prefix)"
  by (auto simp: prefixes_def)

lemma nth_prefixes_mem: "p < NUM_PREFIXES \<Longrightarrow> prefixes ! p \<in> set prefixes"
  by (rule nth_mem) (simp add: NUM_PREFIXES_def prefixes_def)

lemma family_A_counters:
  assumes "c \<in> set (family_A prefix D)" and "unat (p_digits prefix) \<le> D"
  shows "\<exists>num5s num7s num9s. c = Cand_A prefix num5s num7s num9s
           \<and> unat (p_digits prefix) + num5s + num7s + num9s = D \<and> 1 \<le> num5s"
proof -
  from assms(1) obtain num79s num9s
    where a: "num79s \<in> set [0..<D - unat (p_digits prefix)]" "num9s \<in> set [0..<num79s + 1]"
      and c: "c = Cand_A prefix (D - unat (p_digits prefix) - num79s) (num79s - num9s) num9s"
    unfolding family_A_def Let_def in_nested_loops by blast
  from a have "num79s < D - unat (p_digits prefix)" "num9s \<le> num79s" by auto
  with assms(2) have "unat (p_digits prefix) + (D - unat (p_digits prefix) - num79s)
      + (num79s - num9s) + num9s = D" "1 \<le> D - unat (p_digits prefix) - num79s" by simp_all
  with c show ?thesis by blast
qed

lemma family_B_counters:
  assumes "c \<in> set (family_B prefix D)" and "unat (p_digits prefix) \<le> D"
  shows "\<exists>num7s num8s num9s. c = Cand_B prefix num7s num8s num9s
           \<and> unat (p_digits prefix) + num7s + num8s + num9s = D"
proof -
  from assms(1) obtain num89s num9s
    where a: "num89s \<in> set [0..<D - unat (p_digits prefix) + 1]" "num9s \<in> set [0..<num89s + 1]"
      and c: "c = Cand_B prefix (D - unat (p_digits prefix) - num89s) (num89s - num9s) num9s"
    unfolding family_B_def Let_def in_nested_loops by blast
  from a have "num89s \<le> D - unat (p_digits prefix)" "num9s \<le> num89s" by auto
  with assms(2) have "unat (p_digits prefix) + (D - unat (p_digits prefix) - num89s)
      + (num89s - num9s) + num9s = D" by simp
  with c show ?thesis by blast
qed

text \<open>Every pass of a loop body belongs to a table prefix that fits, with counters adding up.\<close>

lemma candidates_shape:
  assumes "c \<in> set (candidates D)"
  shows "(\<exists>prefix num5s num7s num9s. c = Cand_A prefix num5s num7s num9s
            \<and> prefix \<in> set prefixes \<and> odd (unat (p_prod prefix)) \<and> 1 \<le> num5s
            \<and> unat (p_digits prefix) + num5s + num7s + num9s = D)
       \<or> (\<exists>prefix num7s num8s num9s. c = Cand_B prefix num7s num8s num9s
            \<and> prefix \<in> set prefixes
            \<and> unat (p_digits prefix) + num7s + num8s + num9s = D)"
proof -
  from assms obtain p where p: "p < NUM_PREFIXES" and c: "c \<in> set (enumerate_prefix (prefixes ! p) D)"
    by (auto simp: candidates_def)
  let ?prefix = "prefixes ! p"
  have m: "?prefix \<in> set prefixes" using p by (rule nth_prefixes_mem)
  from c have fit: "unat (p_digits ?prefix) \<le> D"
    by (auto simp: enumerate_prefix_def split: if_splits)
  from c fit consider
      (A) "odd (unat (p_prod ?prefix))" "c \<in> set (family_A ?prefix D)"
    | (B) "c \<in> set (family_B ?prefix D)"
    by (auto simp: enumerate_prefix_def odd_prod_iff split: if_splits)
  then show ?thesis
  proof cases
    case A
    from family_A_counters [OF A(2) fit] A(1) m show ?thesis by blast
  next
    case B
    from family_B_counters [OF B fit] m show ?thesis by blast
  qed
qed

lemma candidates_counters:
  assumes "c \<in> set (candidates D)"
  shows "(case c of
            Cand_A prefix num5s num7s num9s \<Rightarrow> unat (p_digits prefix) + num5s + num7s + num9s = D
          | Cand_B prefix num7s num8s num9s \<Rightarrow> unat (p_digits prefix) + num7s + num8s + num9s = D)"
  using candidates_shape [OF assms] by auto

lemma candidates_printed_length:
  assumes "c \<in> set (candidates D)"
  shows "length (printed c) = D"
  using candidates_shape [OF assms] by (auto simp: prefixes_length_str)

text \<open>The record update.\<close>

lemma compute_persistence_total: "\<exists>p. compute_persistence c = Some p"
proof -
  obtain r where "mpz_persistence (first_step c) = Some r"
    unfolding mpz_persistence_def using mpz_persistence_loop_total by blast
  then show ?thesis by (simp add: compute_persistence_def)
qed

lemma search_body_eq:
  "compute_persistence c = Some p \<Longrightarrow> search_body c st = Some (report p (printed c) st)"
  by (simp add: search_body_def)

lemma search_body_total: "\<exists>st'. search_body c st = Some st'"
  using compute_persistence_total [of c] by (auto simp: search_body_def)

lemma for_each_total:
  "(\<And>x st. \<exists>st'. body x st = Some st') \<Longrightarrow> \<exists>st'. for_each body xs st = Some st'"
proof (induction xs arbitrary: st)
  case Nil
  show ?case by simp
next
  case (Cons x xs)
  from Cons.prems obtain st1 where "body x st = Some st1" by blast
  moreover from Cons.IH [OF Cons.prems] obtain st2 where "for_each body xs st1 = Some st2"
    by blast
  ultimately show ?case by simp
qed

lemma for_each_append:
  "for_each body (xs @ ys) st =
     (case for_each body xs st of None \<Rightarrow> None | Some st' \<Rightarrow> for_each body ys st')"
  by (induction xs arbitrary: st) (simp_all split: option.splits)

lemma for_each_nested:
  "for_each (\<lambda>x. for_each body (g x)) xs st = for_each body (concat (map g xs)) st"
  by (induction xs arbitrary: st) (simp_all add: for_each_append split: option.splits)

lemma main_as_run:
  "main MAX_DIGITS =
     for_each search_body (concat (map candidates [2..<MAX_DIGITS + 1])) initial_state"
proof -
  have "search_digits = (\<lambda>digits. for_each search_body (candidates digits))"
    by (intro ext) (simp add: search_digits_def)
  then have "main MAX_DIGITS =
      for_each (\<lambda>digits. for_each search_body (candidates digits)) [2..<MAX_DIGITS + 1]
        initial_state"
    by (simp only: main_def)
  then show ?thesis
    by (simp only: for_each_nested)
qed

lemma for_each_invariant:
  assumes "\<And>x s s'. I s \<Longrightarrow> body x s = Some s' \<Longrightarrow> I s'"
    and "I st" and "for_each body xs st = Some st'"
  shows "I st'"
  using assms(2,3)
proof (induction xs arbitrary: st)
  case Nil
  then show ?case by simp
next
  case (Cons x xs)
  from Cons.prems(2) obtain s1 where s1: "body x st = Some s1" "for_each body xs s1 = Some st'"
    by (auto split: option.splits)
  have "I s1" using assms(1) Cons.prems(1) s1(1) by blast
  then show ?case
    using s1(2) by (rule Cons.IH)
qed

lemma tracker_inv_initial: "tracker_inv initial_state"
  by (simp add: tracker_inv_def initial_state_def)

lemma tracker_inv_report: "tracker_inv st \<Longrightarrow> tracker_inv (report p text st)"
  by (auto simp: tracker_inv_def report_def sorted_wrt_append list_all_iff)

lemma tracker_inv_search_body:
  "tracker_inv st \<Longrightarrow> search_body c st = Some st' \<Longrightarrow> tracker_inv st'"
  by (auto simp: search_body_def tracker_inv_report split: option.splits)

lemma report_max_mono: "max_rec st \<le> max_rec (report p text st)"
  by (auto simp: report_def intro: order.strict_implies_order)

lemma search_body_max_mono: "search_body c st = Some st' \<Longrightarrow> max_rec st \<le> max_rec st'"
  by (auto simp: search_body_def report_max_mono split: option.splits)

lemma run_max_mono:
  "for_each search_body cs st = Some st' \<Longrightarrow> max_rec st \<le> max_rec st'"
proof (induction cs arbitrary: st)
  case Nil
  then show ?case by simp
next
  case (Cons c cs)
  from Cons.prems obtain s1 where s1: "search_body c st = Some s1"
      "for_each search_body cs s1 = Some st'"
    by (auto split: option.splits)
  from search_body_max_mono [OF s1(1)] Cons.IH [OF s1(2)] show ?case by simp
qed

lemma run_lines:
  assumes "\<forall>c \<in> set cs. Q (printed c)" and "for_each search_body cs st = Some st'"
  shows "\<exists>new. printed_lines st' = printed_lines st @ new \<and> (\<forall>l \<in> set new. Q (snd l))"
  using assms
proof (induction cs arbitrary: st)
  case Nil
  then show ?case by simp
next
  case (Cons c cs)
  from Cons.prems(2) obtain s1 where s1: "search_body c st = Some s1"
      "for_each search_body cs s1 = Some st'"
    by (auto split: option.splits)
  from s1(1) Cons.prems(1) obtain n1 where n1: "printed_lines s1 = printed_lines st @ n1"
      "\<forall>l \<in> set n1. Q (snd l)"
    by (auto simp: search_body_def report_def split: option.splits if_splits)
  from Cons.IH [OF _ s1(2)] Cons.prems(1) obtain n2 where
      n2: "printed_lines st' = printed_lines s1 @ n2" "\<forall>l \<in> set n2. Q (snd l)"
    by auto
  from n1 n2 have "printed_lines st' = printed_lines st @ (n1 @ n2)" "\<forall>l \<in> set (n1 @ n2). Q (snd l)"
    by auto
  then show ?case by blast
qed

section \<open>The first step and the printed numeral\<close>

lemma decimal_value_snoc: "decimal_value (s @ [c]) = 10 * decimal_value s + digit_value c"
  by (simp add: decimal_value_def)

lemma digits_of_decimal_value:
  "\<forall>c \<in> set s. 0 < digit_value c \<and> digit_value c < 10 \<Longrightarrow>
   digits_of (decimal_value s) = rev (map digit_value s)"
proof (induction s rule: rev_induct)
  case Nil
  show ?case by (simp add: decimal_value_def digits_of_0)
next
  case (snoc c s)
  let ?v = "decimal_value s" and ?d = "digit_value c"
  from snoc.prems have d: "0 < ?d" "?d < 10" by simp_all
  have "digits_of (10 * ?v + ?d) = ((10 * ?v + ?d) mod 10) # digits_of ((10 * ?v + ?d) div 10)"
    using d by (intro digits_of_pos) simp
  also have "(10 * ?v + ?d) mod 10 = ?d" using d by simp
  also have "(10 * ?v + ?d) div 10 = ?v" using d by simp
  finally show ?case using snoc by (simp add: decimal_value_snoc)
qed

lemma nonzero_digits_append: "nonzero_digits (s @ t) = (nonzero_digits s \<and> nonzero_digits t)"
  by (simp add: nonzero_digits_def)

lemma nonzero_digits_replicate:
  "0 < digit_value c \<Longrightarrow> digit_value c < 10 \<Longrightarrow> nonzero_digits (replicate k c)"
  by (simp add: nonzero_digits_def list_all_iff)

lemma prefixes_nonzero_digits: "prefix \<in> set prefixes \<Longrightarrow> nonzero_digits (p_str prefix)"
  by (auto simp: prefixes_def nonzero_digits_def digit_value_def)

lemma prefixes_text_product:
  "prefix \<in> set prefixes \<Longrightarrow> text_product (p_str prefix) = unat (p_prod prefix)"
  by (auto simp: prefixes_def text_product_def digit_value_def)

lemma text_product_append: "text_product (s @ t) = text_product s * text_product t"
  by (simp add: text_product_def)

lemma text_product_replicate: "text_product (replicate k c) = digit_value c ^ k"
  by (induction k) (simp_all add: text_product_def)

lemma digit_values: "digit_value CHR ''5'' = 5" "digit_value CHR ''7'' = 7"
    "digit_value CHR ''8'' = 8" "digit_value CHR ''9'' = 9"
  by (simp_all add: digit_value_def)

lemma candidates_nonzero_digits:
  assumes "c \<in> set (candidates D)"
  shows "nonzero_digits (printed c)"
  using candidates_shape [OF assms]
  by (auto simp: nonzero_digits_append nonzero_digits_replicate digit_values
        prefixes_nonzero_digits)

lemma candidates_text_product:
  assumes "c \<in> set (candidates D)"
  shows "text_product (printed c) = first_step c"
  using candidates_shape [OF assms]
  by (auto simp: text_product_append text_product_replicate digit_values prefixes_text_product)

text \<open>The first step is the digit product of the numeral that would be printed.\<close>

lemma first_step_is_digit_product:
  assumes "c \<in> set (candidates D)" and "1 \<le> D"
  shows "digit_product (decimal_value (printed c)) = first_step c"
    and "decimal_digits (decimal_value (printed c)) = rev (map digit_value (printed c))"
proof -
  let ?s = "printed c"
  have nz: "\<forall>x \<in> set ?s. 0 < digit_value x \<and> digit_value x < 10"
    using candidates_nonzero_digits [OF assms(1)] by (simp add: nonzero_digits_def list_all_iff)
  then have ds: "digits_of (decimal_value ?s) = rev (map digit_value ?s)"
    by (rule digits_of_decimal_value)
  have "length ?s = D" using assms(1) by (rule candidates_printed_length)
  with assms(2) have "?s \<noteq> []" by auto
  with ds have "digits_of (decimal_value ?s) \<noteq> []" by simp
  then have pos: "0 < decimal_value ?s"
    using digits_of_0 by (cases "decimal_value ?s = 0") simp_all
  then show dd: "decimal_digits (decimal_value ?s) = rev (map digit_value ?s)"
    by (simp add: decimal_digits_def ds)
  have "digit_product (decimal_value ?s) = prod_list (rev (map digit_value ?s))"
    by (simp add: digit_product_def dd)
  also have "\<dots> = text_product ?s"
    by (simp add: text_product_def prod_list.rev)
  finally show "digit_product (decimal_value ?s) = first_step c"
    by (simp add: candidates_text_product [OF assms(1)])
qed

lemma digits_of_two: "2 \<le> length (digits_of n) \<Longrightarrow> 10 \<le> n"
proof (rule ccontr)
  assume l: "2 \<le> length (digits_of n)" and "\<not> 10 \<le> n"
  then have "n < 10" by simp
  then have "length (digits_of n) \<le> 1"
    by (cases "0 < n") (simp_all add: digits_of_pos digits_of_0)
  with l show False by simp
qed

text \<open>
  For a candidate of at least two digits (and fewer than \<open>2 ^ 32 / 3\<close>), the value
  \<open>1 + mpz_persistence(first step)\<close> is what \<open>mpz_persistence\<close> itself returns on the
  numeral: the shortcut of \<open>main\<close> and the loop of \<open>mpz_persistence\<close> agree.
\<close>

lemma compute_persistence_materialised:
  assumes "c \<in> set (candidates D)" and "2 \<le> D" and "3 * D < 2 ^ 32"
  shows "compute_persistence c = mpz_persistence (decimal_value (printed c))"
proof -
  let ?N = "decimal_value (printed c)"
  from assms(2) have D1: "1 \<le> D" by simp
  note fs = first_step_is_digit_product [OF assms(1) D1]
  have len: "length (decimal_digits ?N) = D"
    by (simp add: fs(2) candidates_printed_length [OF assms(1)])
  have nz: "0 \<notin> set (decimal_digits ?N)"
    using candidates_nonzero_digits [OF assms(1)]
    by (auto simp: fs(2) nonzero_digits_def list_all_iff)
  have pos: "0 < ?N"
  proof (rule ccontr)
    assume "\<not> 0 < ?N"
    then have "decimal_digits ?N = [0]" by (simp add: decimal_digits_def)
    with nz show False by simp
  qed
  then have dd: "decimal_digits ?N = digits_of ?N" by (simp add: decimal_digits_def)
  have "10 \<le> ?N" using len assms(2) by (intro digits_of_two) (simp add: dd)
  moreover have "?N \<noteq> 10"
  proof
    assume "?N = 10"
    then have "digits_of ?N = [0, 1]" by (simp add: digits_of.simps)
    with nz dd show False by simp
  qed
  ultimately have big: "10 < ?N" by simp
  have "mul_digits ?N = digit_product ?N"
    using pos assms(3) by (intro mul_digits_is_digit_product short_numbers_no_wrap) (simp_all add: len)
  then have md: "mul_digits ?N = first_step c" by (simp add: fs(1))
  have "mpz_persistence ?N = map_option (\<lambda>r. 1 + r) (mpz_persistence (mul_digits ?N))"
    using big by (rule mpz_persistence_step)
  then show ?thesis
    by (simp add: md compute_persistence_def split: option.splits)
qed

section \<open>The list of candidates and the loop nests\<close>

lemma for_each_map_st: "for_each body (map f xs) st = for_each (\<lambda>x. body (f x)) xs st"
  by (induction xs arbitrary: st) (simp_all split: option.splits)

lemma for_each_map: "for_each body (map f xs) = for_each (\<lambda>x. body (f x)) xs"
  by (intro ext) (rule for_each_map_st)

text \<open>
  Running the body over the list of candidates is running the loop nests of the source:
  the list view and the nested \<open>for\<close> statements are the same computation.
\<close>

lemma family_A_as_loops:
  "for_each search_body (family_A prefix digits) st =
     for_each (\<lambda>num79s.
       for_each (\<lambda>num9s.
         search_body (Cand_A prefix (digits - unat (p_digits prefix) - num79s)
           (num79s - num9s) num9s)) [0..<num79s + 1])
       [0..<digits - unat (p_digits prefix)] st"
  unfolding family_A_def Let_def
  by (simp only: for_each_nested [symmetric] for_each_map)

lemma family_B_as_loops:
  "for_each search_body (family_B prefix digits) st =
     for_each (\<lambda>num89s.
       for_each (\<lambda>num9s.
         search_body (Cand_B prefix (digits - unat (p_digits prefix) - num89s)
           (num89s - num9s) num9s)) [0..<num89s + 1])
       [0..<digits - unat (p_digits prefix) + 1] st"
  unfolding family_B_def Let_def
  by (simp only: for_each_nested [symmetric] for_each_map)

lemma enumerate_prefix_as_loops:
  "for_each search_body (enumerate_prefix prefix digits) st =
     (if digits < unat (p_digits prefix) then Some st
      else case (if p_prod prefix AND 1 \<noteq> 0
                 then for_each search_body (family_A prefix digits) st
                 else Some st) of
             None \<Rightarrow> None
           | Some st' \<Rightarrow> for_each search_body (family_B prefix digits) st')"
  by (simp add: enumerate_prefix_def for_each_append)

lemma search_digits_as_loops:
  "search_digits digits st =
     for_each (\<lambda>p. for_each search_body (enumerate_prefix (prefixes ! p) digits))
       [0..<NUM_PREFIXES] st"
  unfolding search_digits_def candidates_def
  by (simp only: for_each_nested [symmetric])

section \<open>The claims about the evaluator\<close>

text \<open>
  C6: for every natural number \<open>n\<close> from 0 to 9, \<open>mpz_persistence(n)\<close> returns 0.
\<close>

theorem mpz_persistence_single_digit: "n \<le> 9 \<Longrightarrow> mpz_persistence n = Some 0"
  by (simp add: mpz_persistence_small)

theorem mpz_persistence_single_digit_witness:
  "(7::nat) \<le> 9 \<and> mpz_persistence 7 = Some 0"
  using mpz_persistence_single_digit [of 7] by simp

text \<open>
  C9: \<open>mpz_persistence\<close> terminates on every input: whenever the loop body runs
  (\<open>v > 10\<close>), \<open>mul_digits(v)\<close> is strictly less than \<open>v\<close>, so the iterated value
  strictly decreases until the guard fails, and the function returns a count.
\<close>

theorem mpz_persistence_terminates:
  "(10 < v \<longrightarrow> mul_digits v < v) \<and> (\<exists>count. mpz_persistence v = Some count)"
  by (simp add: mul_digits_less mpz_persistence_def mpz_persistence_loop_total)

theorem mpz_persistence_terminates_witness:
  "(10::nat) < 39 \<and> mul_digits 39 < 39 \<and> (\<exists>count. mpz_persistence 39 = Some count)"
  using mpz_persistence_terminates [of 39] by simp

text \<open>
  C3: for every natural number \<open>n\<close>, \<open>mul_digits(n)\<close> returns the product of the
  decimal digits of \<open>n\<close>, and this product is zero whenever a decimal digit of
  \<open>n\<close> is zero. As stated the claim includes \<open>n = 0\<close>, whose only digit is 0:
  there the loop of \<open>mul_digits\<close> does not run and the result is \<open>2^0 = 1\<close>. It
  also includes the numbers long enough for a counter of the histogram to wrap, such as
  the one written with 1431655766 eights, on which \<open>mul_digits\<close> returns 4.
\<close>

theorem mul_digits_zero_counterexample:
  "mul_digits 0 = 1 \<and> digit_product 0 = 0 \<and> 0 \<in> set (decimal_digits 0)
   \<and> mul_digits (repdigit 8 1431655766) = 4
   \<and> mul_digits (repdigit 8 1431655766) \<noteq> digit_product (repdigit 8 1431655766)"
proof -
  have z: "mul_digits 0 = 1 \<and> digit_product 0 = 0 \<and> 0 \<in> set (decimal_digits 0)"
    by (simp add: mul_digits_eq digits_of_0 hist_exp2_def hist_exp3_def digit_product_def
          decimal_digits_def)
  have k: "(0::nat) < 1431655766" by simp
  have w: "3 * 1431655766 mod 2 ^ 32 = (2::nat)" by simp
  have o: "(2::nat) ^ 32 \<le> 3 * 1431655766" by simp
  show ?thesis
    using z repdigit8_result [OF w] repdigit8_wraps_product [OF k o]
    by blast
qed

text \<open>
  C3, amended: for every \<open>n \<ge> 1\<close>, \<open>mul_digits(n)\<close> is zero, as the digit product
  is, whenever a decimal digit of \<open>n\<close> is zero; and \<open>mul_digits(n)\<close> is the product
  of the decimal digits of \<open>n\<close> whenever the four exponents fit the 32-bit counters,
  which they do whenever three times the number of digits of \<open>n\<close> is below
  \<open>2 ^ 32\<close>.
\<close>

theorem mul_digits_digit_product:
  "1 \<le> n \<Longrightarrow>
   (0 \<in> set (decimal_digits n) \<longrightarrow> mul_digits n = 0 \<and> digit_product n = 0)
   \<and> (no_wrap n \<longrightarrow> mul_digits n = digit_product n)
   \<and> (3 * length (decimal_digits n) < 2 ^ 32 \<longrightarrow> no_wrap n)"
  by (simp add: mul_digits_is_digit_product mul_digits_zero_digit short_numbers_no_wrap)

theorem mul_digits_digit_product_witness:
  "(1::nat) \<le> 6708 \<and> 0 \<in> set (decimal_digits 6708)
   \<and> 3 * length (decimal_digits 6708) < 2 ^ 32 \<and> no_wrap 6708
   \<and> mul_digits 6708 = digit_product 6708 \<and> mul_digits 6708 = 0"
proof -
  have h1: "(1::nat) \<le> 6708" by simp
  have d: "decimal_digits 6708 = [8, 0, 7, 6]"
    by (simp add: decimal_digits_def digits_of.simps)
  have h2: "3 * length (decimal_digits 6708) < 2 ^ 32" by (simp add: d)
  have h3: "0 \<in> set (decimal_digits 6708)" by (simp add: d)
  show ?thesis
    using mul_digits_digit_product [OF h1] h1 h2 h3 by blast
qed

text \<open>
  C8: for every \<open>n \<ge> 1\<close> with no zero digit, the digit product equals
  \<open>2^(h2 + 2 h4 + h6 + 3 h8) 3^(h3 + h6 + 2 h9) 5^h5 7^h7\<close> and \<open>mul_digits(n)\<close>
  computes exactly this factorization. The second half fails where a 32-bit counter
  wraps: on the number written with 1431655766 eights, \<open>hist[8] * 3\<close> is
  \<open>4294967298 mod 2^32 = 2\<close> and \<open>mul_digits\<close> returns \<open>2^2 = 4\<close>.
\<close>

theorem mul_digits_factorization_counterexample:
  "mul_digits (repdigit 8 1431655766) = 4
   \<and> mul_digits (repdigit 8 1431655766) \<noteq> hist_factorization (repdigit 8 1431655766)
   \<and> 1 \<le> repdigit 8 1431655766
   \<and> 0 \<notin> set (decimal_digits (repdigit 8 1431655766))"
proof -
  have k: "(0::nat) < 1431655766" by simp
  have w: "3 * 1431655766 mod 2 ^ 32 = (2::nat)" by simp
  have o: "(2::nat) ^ 32 \<le> 3 * 1431655766" by simp
  show ?thesis
    using repdigit8_result [OF w] repdigit8_wraps [OF k o] repdigit8_shape [OF k]
    by blast
qed

text \<open>
  C8, amended: for every \<open>n \<ge> 1\<close> with no zero digit the digit product equals the
  recomposed factorization, and \<open>mul_digits(n)\<close> computes it whenever the four
  exponents fit the 32-bit counters, which they do whenever three times the number of
  digits of \<open>n\<close> is below \<open>2 ^ 32\<close>.
\<close>

theorem mul_digits_factorization:
  "1 \<le> n \<Longrightarrow> 0 \<notin> set (decimal_digits n) \<Longrightarrow>
   digit_product n = hist_factorization n
   \<and> (no_wrap n \<longrightarrow> mul_digits n = hist_factorization n)
   \<and> (3 * length (decimal_digits n) < 2 ^ 32 \<longrightarrow> no_wrap n)"
  by (simp add: mul_digits_is_digit_product digit_product_factorization short_numbers_no_wrap)

theorem mul_digits_factorization_witness:
  "(1::nat) \<le> 679 \<and> 0 \<notin> set (decimal_digits 679)
   \<and> 3 * length (decimal_digits 679) < 2 ^ 32 \<and> no_wrap 679
   \<and> digit_product 679 = hist_factorization 679
   \<and> mul_digits 679 = hist_factorization 679
   \<and> mul_digits 679 = 378"
proof -
  have h1: "(1::nat) \<le> 679" by simp
  have d: "decimal_digits 679 = [9, 7, 6]"
    by (simp add: decimal_digits_def digits_of.simps)
  have h2: "0 \<notin> set (decimal_digits 679)" by (simp add: d)
  have h3: "3 * length (decimal_digits 679) < 2 ^ 32" by (simp add: d)
  have h4: "mul_digits 679 = 378"
    by (simp add: mul_digits_def mul_digits_loop.simps Let_def)
  show ?thesis
    using mul_digits_factorization [OF h1 h2] h1 h2 h3 h4 by blast
qed

text \<open>
  C1: for every \<open>n \<ge> 10\<close>, \<open>persistence(n) = 1 + persistence(digit_product(n))\<close>;
  equivalently \<open>mpz_persistence(n)\<close> is the number of digit-product iterations that
  bring \<open>n\<close> below 10. The guard of the loop is \<open>in > 10\<close>, so the value 10 is
  left as it is: \<open>mpz_persistence(10)\<close> is 0 although one more iteration is needed,
  and \<open>mpz_persistence(25)\<close> is 1 although 25, 10, 0 takes two.
\<close>

theorem mpz_persistence_at_ten:
  "mpz_persistence 10 = Some 0
   \<and> map_option (\<lambda>r. 1 + r) (mpz_persistence (mul_digits 10)) = Some 1
   \<and> persistence 10 = 1
   \<and> mpz_persistence 25 = Some 1
   \<and> persistence 25 = 2"
  by (simp add: mpz_persistence_def mpz_persistence_loop.simps mul_digits_def
        mul_digits_loop.simps Let_def persistence.simps digit_product_def decimal_digits_def
        digits_of.simps)

section \<open>The claims about the prefix table and the search\<close>

text \<open>
  C7: the prefix table holds exactly the six entries ("26",2,12), ("2",1,2), ("3",1,3),
  ("4",1,4), ("6",1,6), ("",0,1), in that order, and the product field of each entry is
  the product of the decimal digits of its text, the product of the empty text being 1.
\<close>

theorem prefixes_table:
  "prefixes =
     [\<lparr>p_str = ''26'', p_digits = 2, p_prod = 12\<rparr>,
      \<lparr>p_str = ''2'', p_digits = 1, p_prod = 2\<rparr>,
      \<lparr>p_str = ''3'', p_digits = 1, p_prod = 3\<rparr>,
      \<lparr>p_str = ''4'', p_digits = 1, p_prod = 4\<rparr>,
      \<lparr>p_str = ''6'', p_digits = 1, p_prod = 6\<rparr>,
      \<lparr>p_str = '''', p_digits = 0, p_prod = 1\<rparr>]
   \<and> length prefixes = NUM_PREFIXES
   \<and> map (\<lambda>p. unat (p_prod p)) prefixes = map (\<lambda>p. text_product (p_str p)) prefixes
   \<and> text_product '''' = 1"
  by (simp add: prefixes_def NUM_PREFIXES_def text_product_def digit_value_def)

text \<open>
  C4: for a digit count \<open>D\<close> and a prefix with \<open>digits \<le> D\<close>, with
  \<open>R = D - digits\<close> and \<open>P\<close> the prefix product, the values that the loops hand to
  the evaluator are: only when \<open>P\<close> is odd, \<open>P 5^s 7^b 9^d\<close> for all
  \<open>s \<ge> 1\<close>, \<open>b\<close>, \<open>d\<close> with \<open>s + b + d = R\<close>, enumerated by \<open>q\<close> in
  \<open>[0, R)\<close> with \<open>s = R - q\<close>, then \<open>d\<close> in \<open>[0, q]\<close>, \<open>b = q - d\<close>; and
  \<open>P 7^b 8^c 9^d\<close> for all \<open>b + c + d = R\<close>, enumerated by \<open>m\<close> in \<open>[0, R]\<close>
  with \<open>b = R - m\<close>, then \<open>d\<close> in \<open>[0, m]\<close>, \<open>c = m - d\<close>.
\<close>

theorem enumerated_values:
  assumes "unat (p_digits prefix) \<le> D"
    and "R = D - unat (p_digits prefix)" and "P = unat (p_prod prefix)"
  shows "map first_step (enumerate_prefix prefix D) =
           (if odd P
            then [P * 5 ^ (R - q) * 7 ^ (q - d) * 9 ^ d. q \<leftarrow> [0..<R], d \<leftarrow> [0..<q + 1]]
            else [])
           @ [P * 7 ^ (R - m) * 8 ^ (m - d) * 9 ^ d. m \<leftarrow> [0..<R + 1], d \<leftarrow> [0..<m + 1]]
         \<and> set (map first_step (enumerate_prefix prefix D)) =
           (if odd P then {P * 5 ^ s * 7 ^ b * 9 ^ d | s b d. 1 \<le> s \<and> s + b + d = R} else {})
           \<union> {P * 7 ^ b * 8 ^ c * 9 ^ d | b c d. b + c + d = R}"
proof -
  have l: "map first_step (enumerate_prefix prefix D) =
           (if odd P
            then [P * 5 ^ (R - q) * 7 ^ (q - d) * 9 ^ d. q \<leftarrow> [0..<R], d \<leftarrow> [0..<q + 1]]
            else [])
           @ [P * 7 ^ (R - m) * 8 ^ (m - d) * 9 ^ d. m \<leftarrow> [0..<R + 1], d \<leftarrow> [0..<m + 1]]"
    using assms(1) unfolding assms(2,3) enumerate_prefix_def
    by (simp only: first_step_family_A first_step_family_B odd_prod_iff map_append
          linorder_not_less [symmetric] if_False if_distrib [of "map first_step"] list.map)
  show ?thesis
    unfolding l by (simp only: l set_append set_family_A_values set_family_B_values
        if_distrib [of set] list.set simp_thms)
qed

theorem enumerated_values_witness:
  "unat (p_digits (prefixes ! 2)) \<le> 2
   \<and> map first_step (enumerate_prefix (prefixes ! 2) 2) = [15, 21, 24, 27]
   \<and> set (map first_step (enumerate_prefix (prefixes ! 2) 2)) =
       {3 * 5 ^ s * 7 ^ b * 9 ^ d | s b d. 1 \<le> s \<and> s + b + d = 1}
       \<union> {3 * 7 ^ b * 8 ^ c * 9 ^ d | b c d. b + c + d = 1}"
proof -
  have p: "prefixes ! 2 = \<lparr>p_str = ''3'', p_digits = 1, p_prod = 3\<rparr>"
    by (simp add: prefixes_def)
  have h1: "unat (p_digits (prefixes ! 2)) \<le> 2" by (simp add: p)
  have h2: "1 = 2 - unat (p_digits (prefixes ! 2))" by (simp add: p)
  have h3: "3 = unat (p_prod (prefixes ! 2))" by (simp add: p)
  have u: "[0..<1] = [0]" "[0..<2] = [0, 1]"
    by (simp_all add: upt_rec)
  have e: "map first_step (enumerate_prefix (prefixes ! 2) 2) = [15, 21, 24, 27]"
    by (simp add: p enumerate_prefix_def family_A_def family_B_def and_one_eq u)
  show ?thesis
    using enumerated_values [OF h1 h2 h3] h1 e by simp
qed

text \<open>
  C10: every record line printed while the outer loop is at digit count \<open>D\<close> shows a
  numeral of exactly \<open>D\<close> digits (\<open>D\<close> characters, each a digit from 1 to 9): in
  the first loop nest
  \<open>prefix.digits + num5s + num7s + num9s = D\<close>, in the second
  \<open>prefix.digits + num7s + num8s + num9s = D\<close>, for every setting of the counters.
\<close>

theorem printed_numeral_digits:
  "(\<forall>c \<in> set (candidates D).
      (case c of
         Cand_A prefix num5s num7s num9s \<Rightarrow>
           unat (p_digits prefix) + num5s + num7s + num9s = D
       | Cand_B prefix num7s num8s num9s \<Rightarrow>
           unat (p_digits prefix) + num7s + num8s + num9s = D)
      \<and> length (printed c) = D \<and> nonzero_digits (printed c))
   \<and> (search_digits D st = Some st' \<longrightarrow>
        (\<exists>new. printed_lines st' = printed_lines st @ new
           \<and> (\<forall>l \<in> set new. length (snd l) = D \<and> nonzero_digits (snd l))))"
proof (intro conjI ballI impI)
  fix c assume "c \<in> set (candidates D)"
  then show "case c of
         Cand_A prefix num5s num7s num9s \<Rightarrow>
           unat (p_digits prefix) + num5s + num7s + num9s = D
       | Cand_B prefix num7s num8s num9s \<Rightarrow>
           unat (p_digits prefix) + num7s + num8s + num9s = D"
    by (rule candidates_counters)
next
  fix c assume "c \<in> set (candidates D)"
  then show "length (printed c) = D" by (rule candidates_printed_length)
next
  fix c assume "c \<in> set (candidates D)"
  then show "nonzero_digits (printed c)" by (rule candidates_nonzero_digits)
next
  assume "search_digits D st = Some st'"
  then have "for_each search_body (candidates D) st = Some st'"
    by (simp add: search_digits_def)
  moreover have "\<forall>c \<in> set (candidates D).
      length (printed c) = D \<and> nonzero_digits (printed c)"
    by (simp add: candidates_printed_length candidates_nonzero_digits)
  ultimately show "\<exists>new. printed_lines st' = printed_lines st @ new
           \<and> (\<forall>l \<in> set new. length (snd l) = D \<and> nonzero_digits (snd l))"
    by (rule run_lines [rotated])
qed

theorem printed_numeral_digits_witness:
  "Cand_B (prefixes ! 2) 0 0 1 \<in> set (candidates 2)
   \<and> unat (p_digits (prefixes ! 2)) + 0 + 0 + 1 = 2
   \<and> length (printed (Cand_B (prefixes ! 2) 0 0 1)) = 2
   \<and> search_digits 2 initial_state =
        Some \<lparr>max_rec = 4, printed_lines = [(3, ''39''), (4, ''77'')]\<rparr>
   \<and> printed_lines initial_state = []
   \<and> length (snd (3 :: unsigned, ''39'')) = 2 \<and> length (snd (4 :: unsigned, ''77'')) = 2"
proof -
  have m: "Cand_B (prefixes ! 2) 0 0 1 \<in> set (candidates 2)"
    by code_simp
  have r: "search_digits 2 initial_state =
      Some \<lparr>max_rec = 4, printed_lines = [(3, ''39''), (4, ''77'')]\<rparr>"
    by code_simp
  have i: "printed_lines initial_state = []"
    by (simp add: initial_state_def)
  show ?thesis
    using printed_numeral_digits [of 2 initial_state
        "\<lparr>max_rec = 4, printed_lines = [(3, ''39''), (4, ''77'')]\<rparr>"] m r i
    by fastforce
qed

text \<open>
  C5: in every run the persistences printed on the record lines increase strictly, each
  is greater than 2, and \<open>max\<close> never decreases: a line is printed exactly when the
  computed persistence exceeds the current \<open>max\<close>, which is then set to it. The
  statement is about the bodies run in any order on any candidates, of which the run of
  \<open>main\<close> is one: for \<open>MAX_DIGITS < 2 ^ 32 - 1\<close>, where the outer counter cannot wrap,
  \<open>main\<close> is such a run, it returns, and its final state has these properties.
\<close>

theorem record_lines_increasing:
  "(for_each search_body cs initial_state = Some st \<longrightarrow>
      sorted_wrt (<) (map fst (printed_lines st))
      \<and> (\<forall>l \<in> set (printed_lines st). 2 < fst l)
      \<and> 2 \<le> max_rec st)
   \<and> (search_body c s = Some s' \<longrightarrow>
        max_rec s \<le> max_rec s'
        \<and> (\<exists>p. compute_persistence c = Some p
             \<and> s' = (if max_rec s < p
                     then s\<lparr>printed_lines := printed_lines s @ [(p, printed c)], max_rec := p\<rparr>
                     else s)))
   \<and> (for_each search_body cs s = Some s' \<longrightarrow> max_rec s \<le> max_rec s')
   \<and> (MAX_DIGITS < 2 ^ 32 - 1 \<longrightarrow>
        main MAX_DIGITS =
          for_each search_body (concat (map candidates [2..<MAX_DIGITS + 1])) initial_state
        \<and> (\<exists>final. main MAX_DIGITS = Some final
             \<and> sorted_wrt (<) (map fst (printed_lines final))
             \<and> (\<forall>l \<in> set (printed_lines final). 2 < fst l)
             \<and> 2 \<le> max_rec final))"
proof (intro conjI impI)
  assume run: "for_each search_body cs initial_state = Some st"
  have "tracker_inv st"
    by (rule for_each_invariant [of tracker_inv search_body, OF tracker_inv_search_body
          tracker_inv_initial run])
  then show "sorted_wrt (<) (map fst (printed_lines st))"
    "\<forall>l \<in> set (printed_lines st). 2 < fst l" "2 \<le> max_rec st"
    by (simp_all add: tracker_inv_def list_all_iff)
next
  assume "search_body c s = Some s'"
  then show "max_rec s \<le> max_rec s'" by (rule search_body_max_mono)
next
  assume "search_body c s = Some s'"
  then show "\<exists>p. compute_persistence c = Some p
             \<and> s' = (if max_rec s < p
                     then s\<lparr>printed_lines := printed_lines s @ [(p, printed c)], max_rec := p\<rparr>
                     else s)"
    by (auto simp: search_body_def report_def split: option.splits)
next
  assume "for_each search_body cs s = Some s'"
  then show "max_rec s \<le> max_rec s'" by (rule run_max_mono)
next
  assume "MAX_DIGITS < 2 ^ 32 - 1"
  show "main MAX_DIGITS =
        for_each search_body (concat (map candidates [2..<MAX_DIGITS + 1])) initial_state"
    by (rule main_as_run)
next
  assume "MAX_DIGITS < 2 ^ 32 - 1"
  let ?cs = "concat (map candidates [2..<MAX_DIGITS + 1])"
  have "\<exists>final. for_each search_body ?cs initial_state = Some final"
    by (rule for_each_total) (rule search_body_total)
  then obtain final where run: "for_each search_body ?cs initial_state = Some final"
    by blast
  have "tracker_inv final"
    by (rule for_each_invariant [of tracker_inv search_body, OF tracker_inv_search_body
          tracker_inv_initial run])
  then have "sorted_wrt (<) (map fst (printed_lines final))"
    "\<forall>l \<in> set (printed_lines final). 2 < fst l" "2 \<le> max_rec final"
    by (simp_all add: tracker_inv_def list_all_iff)
  moreover have "main MAX_DIGITS = Some final"
    using run by (simp only: main_as_run)
  ultimately show "\<exists>final. main MAX_DIGITS = Some final
             \<and> sorted_wrt (<) (map fst (printed_lines final))
             \<and> (\<forall>l \<in> set (printed_lines final). 2 < fst l)
             \<and> 2 \<le> max_rec final"
    by blast
qed

theorem record_lines_increasing_witness:
  "(2 :: nat) < 2 ^ 32 - 1
   \<and> main 2 = Some \<lparr>max_rec = 4, printed_lines = [(3, ''39''), (4, ''77'')]\<rparr>
   \<and> sorted_wrt (<) (map fst [(3 :: unsigned, ''39''), (4, ''77'')])
   \<and> (2 :: unsigned) < 3 \<and> (2 :: unsigned) < 4 \<and> (2 :: unsigned) \<le> 4
   \<and> search_body (Cand_B (prefixes ! 2) 0 0 1) initial_state =
        Some \<lparr>max_rec = 3, printed_lines = [(3, ''39'')]\<rparr>
   \<and> compute_persistence (Cand_B (prefixes ! 2) 0 0 1) = Some 3
   \<and> max_rec initial_state = 2"
proof -
  have m: "(2 :: nat) < 2 ^ 32 - 1" by simp
  have r: "main 2 = Some \<lparr>max_rec = 4, printed_lines = [(3, ''39''), (4, ''77'')]\<rparr>"
    by code_simp
  have b: "search_body (Cand_B (prefixes ! 2) 0 0 1) initial_state =
        Some \<lparr>max_rec = 3, printed_lines = [(3, ''39'')]\<rparr>"
    by code_simp
  have p: "compute_persistence (Cand_B (prefixes ! 2) 0 0 1) = Some 3"
    by code_simp
  have i: "max_rec initial_state = 2"
    by (simp add: initial_state_def)
  show ?thesis
    using record_lines_increasing [of "concat (map candidates [2..<2 + 1])"
        "\<lparr>max_rec = 4, printed_lines = [(3, ''39''), (4, ''77'')]\<rparr>"
        "Cand_B (prefixes ! 2) 0 0 1" initial_state
        "\<lparr>max_rec = 3, printed_lines = [(3, ''39'')]\<rparr>" 2] m r b p i
    by simp
qed

text \<open>
  C2: for every enumerated candidate, the value \<open>p = 1 + mpz_persistence(first step)\<close>
  that the program computes is the multiplicative digital persistence of the numeral it
  would print. The candidate 55 (empty prefix, two 5s) is enumerated at two digits: its
  first step is 25, \<open>mpz_persistence(25)\<close> stops at 10 and returns 1, so \<open>p = 2\<close>,
  but 55, 25, 10, 0 is three steps.
\<close>

theorem candidate_55_undercounted:
  "Cand_A (prefixes ! 5) 2 0 0 \<in> set (candidates 2)
   \<and> printed (Cand_A (prefixes ! 5) 2 0 0) = ''55''
   \<and> decimal_value ''55'' = 55
   \<and> first_step (Cand_A (prefixes ! 5) 2 0 0) = 25
   \<and> compute_persistence (Cand_A (prefixes ! 5) 2 0 0) = Some 2
   \<and> persistence 55 = 3"
proof -
  have "Cand_A (prefixes ! 5) 2 0 0 \<in> set (candidates 2)"
    by code_simp
  moreover have "printed (Cand_A (prefixes ! 5) 2 0 0) = ''55''"
    by (simp add: prefixes_def numeral_2_eq_2)
  moreover have "decimal_value ''55'' = 55"
    by (simp add: decimal_value_def digit_value_def)
  moreover have "first_step (Cand_A (prefixes ! 5) 2 0 0) = 25"
    by (simp add: prefixes_def)
  moreover have "compute_persistence (Cand_A (prefixes ! 5) 2 0 0) = Some 2"
    by (simp add: compute_persistence_def prefixes_def mpz_persistence_def
          mpz_persistence_loop.simps mul_digits_def mul_digits_loop.simps Let_def)
  moreover have "persistence 55 = 3"
    by (simp add: persistence.simps digit_product_def decimal_digits_def digits_of.simps)
  ultimately show ?thesis by blast
qed

end
